theory Spec2Isabelle
  imports Complex_Main
begin

section \<open>Errors\<close>

text \<open>
  The exceptions of the two source files, as values. \<open>ValueError\<close> is raised by
  \<open>get_events\<close> on an empty range, \<open>LookupError\<close> by \<open>get_closest_block\<close> when the
  bisection kept no candidate, \<open>TypeError\<close> is what Python raises when
  \<open>_coerce_and_validate_uint256\<close> executes \<open>raise\<close> on a string. \<open>RpcError n\<close> stands
  for any exception of a collaborator (the node's RPC, a wrapped function); the number
  tells two such exceptions apart. \<open>RetriesExhaustedError\<close> is the wrapper the
  specification's error taxonomy names (a cause and a number of attempts); it is listed so
  that statements can speak of it.
\<close>

datatype error =
    ValueError
  | LookupError
  | TypeError
  | RpcError nat
  | RetriesExhaustedError error nat

section \<open>The Uint256 column type (models/types.py)\<close>

text \<open>
  The values that pass through the column type: \<open>None\<close>, a Python \<open>int\<close>, or a
  finite \<open>decimal.Decimal\<close> (a rational number).
\<close>

datatype pyvalue = NoneV | IntV int | DecimalV rat

definition MAX_UINT256 :: int where
  "MAX_UINT256 = 2 ^ 256 - 1"

text \<open>Python's \<open>int(value)\<close>: the identity on an int, truncation towards zero on a Decimal.\<close>

fun py_int :: "pyvalue \<Rightarrow> error + int" where
  "py_int NoneV = Inl TypeError"
| "py_int (IntV i) = Inr i"
| "py_int (DecimalV r) = Inr (if 0 \<le> r then \<lfloor>r\<rfloor> else \<lceil>r\<rceil>)"

definition coerce_and_validate_uint256 :: "pyvalue \<Rightarrow> error + pyvalue" where
  "coerce_and_validate_uint256 v =
     (case py_int v of
        Inl e \<Rightarrow> Inl e
      | Inr i \<Rightarrow> if i < 0 \<or> i > MAX_UINT256 then Inl TypeError else Inr (IntV i))"

definition process_result_value :: "pyvalue \<Rightarrow> error + pyvalue" where
  "process_result_value v =
     (if v \<noteq> NoneV then coerce_and_validate_uint256 v else Inr NoneV)"

fun process_bind_param :: "pyvalue \<Rightarrow> error + pyvalue" where
  "process_bind_param (DecimalV r) = coerce_and_validate_uint256 (DecimalV r)"
| "process_bind_param v = Inr v"

text \<open>
  The clamp the specification's sentence describes, for comparison with the code.
\<close>

definition clamp_uint256 :: "int \<Rightarrow> int" where
  "clamp_uint256 i = max 0 (min MAX_UINT256 i)"

section \<open>Retrying calls with exponential backoff (tools/utils.py)\<close>

text \<open>
  What a run does besides returning: the calls it made to the collaborator, in order
  (each with its arguments), and the seconds it slept, in order.
\<close>

record 'c io =
  calls :: "'c list"
  sleeps :: "rat list"

text \<open>
  Python's \<open>2 ** attempt\<close> on an int: an int for a non-negative exponent, the float
  \<open>1 / 2 ** (- attempt)\<close> for a negative one.
\<close>

definition py_pow2 :: "int \<Rightarrow> rat" where
  "py_pow2 a = (if 0 \<le> a then 2 ^ nat a else 1 / 2 ^ nat (- a))"

definition exponential_sleep :: "int \<Rightarrow> rat \<Rightarrow> 'c io \<Rightarrow> 'c io" where
  "exponential_sleep attempt max_sleep_time s =
     (let sleep_time = min (py_pow2 attempt) max_sleep_time
      in s\<lparr>sleeps := sleeps s @ [sleep_time]\<rparr>)"

text \<open>
  A collaborator call is a function of the calls made before it and of its arguments, so
  that it can fail now and succeed later. \<open>retryable_loop\<close> is the \<open>while True\<close>
  of \<open>wrapped\<close>, \<open>attempt\<close> its counter.
\<close>

function retryable_loop ::
  "int \<Rightarrow> ('c list \<Rightarrow> 'c \<Rightarrow> error + 'a) \<Rightarrow> 'c \<Rightarrow> int \<Rightarrow> 'c io \<Rightarrow> (error + 'a) \<times> 'c io"
where
  "retryable_loop max_attempts func args attempt s =
     (let s1 = s\<lparr>calls := calls s @ [args]\<rparr> in
      case func (calls s) args of
        Inr v \<Rightarrow> (Inr v, s1)
      | Inl e \<Rightarrow>
          if attempt \<ge> max_attempts then (Inl e, s1)
          else retryable_loop max_attempts func args (attempt + 1)
                 (exponential_sleep attempt 256 s1))"
  by pat_completeness auto
termination
  by (relation "measure (\<lambda>(m, f, a, attempt, s). nat (m - attempt))") auto

definition retryable ::
  "int \<Rightarrow> ('c list \<Rightarrow> 'c \<Rightarrow> error + 'a) \<Rightarrow> 'c \<Rightarrow> 'c io \<Rightarrow> (error + 'a) \<times> 'c io"
where
  "retryable max_attempts func args s = retryable_loop max_attempts func args 0 s"

text \<open>
  \<open>event.getLogs\<close> is called with \<open>(fromBlock, toBlock, argument_filters)\<close>.
  \<open>batch_retry_loop\<close> is the \<open>while True\<close> of \<open>get_event_batch_with_retries\<close>.
\<close>

type_synonym 'f log_call = "int \<times> int \<times> 'f"

function batch_retry_loop ::
  "('f log_call list \<Rightarrow> 'f log_call \<Rightarrow> error + 'ev list) \<Rightarrow> int \<Rightarrow> int \<Rightarrow> 'f \<Rightarrow> int \<Rightarrow> int
     \<Rightarrow> 'f log_call io \<Rightarrow> (error + 'ev list) \<times> 'f log_call io"
where
  "batch_retry_loop getLogs from_block to_block argument_filters initial_retries retries s =
     (let s1 = s\<lparr>calls := calls s @ [(from_block, to_block, argument_filters)]\<rparr> in
      case getLogs (calls s) (from_block, to_block, argument_filters) of
        Inr events \<Rightarrow> (Inr events, s1)
      | Inl e \<Rightarrow>
          if retries \<le> 0 then (Inl e, s1)
          else batch_retry_loop getLogs from_block to_block argument_filters initial_retries
                 (retries - 1)
                 (exponential_sleep (initial_retries - (retries - 1)) 256 s1))"
  by pat_completeness auto
termination
  by (relation "measure (\<lambda>(g, a, b, f, i, retries, s). nat retries)") auto

definition get_event_batch_with_retries ::
  "('f log_call list \<Rightarrow> 'f log_call \<Rightarrow> error + 'ev list) \<Rightarrow> int \<Rightarrow> int \<Rightarrow> 'f \<Rightarrow> int
     \<Rightarrow> 'f log_call io \<Rightarrow> (error + 'ev list) \<times> 'f log_call io"
where
  "get_event_batch_with_retries getLogs from_block to_block argument_filters retries s =
     batch_retry_loop getLogs from_block to_block argument_filters retries retries s"

section \<open>The batched log fetcher (tools/utils.py)\<close>

text \<open>
  The \<open>while batch_from_block <= to_block\<close> loop of \<open>get_events\<close>. With a negative
  \<open>batch_size\<close> the cursor never passes \<open>to_block\<close> and the loop runs forever,
  which is the value \<open>None\<close> here. A batch whose retries are used up raises out of the loop.
\<close>

partial_function (option) get_events_loop ::
  "('f log_call list \<Rightarrow> 'f log_call \<Rightarrow> error + 'ev list) \<Rightarrow> int \<Rightarrow> int \<Rightarrow> 'f \<Rightarrow> int
     \<Rightarrow> 'ev list \<Rightarrow> 'f log_call io \<Rightarrow> ((error + 'ev list) \<times> 'f log_call io) option"
where
  "get_events_loop getLogs to_block batch_size argument_filters batch_from_block ret s =
     (if batch_from_block \<le> to_block then
        (let batch_to_block = min (batch_from_block + batch_size) to_block in
         case get_event_batch_with_retries getLogs batch_from_block batch_to_block
                argument_filters 10 s of
           (Inl e, s1) \<Rightarrow> Some (Inl e, s1)
         | (Inr events, s1) \<Rightarrow>
             get_events_loop getLogs to_block batch_size argument_filters
               (batch_to_block + 1) (ret @ events) s1)
      else Some (Inr ret, s))"

definition get_events ::
  "('f log_call list \<Rightarrow> 'f log_call \<Rightarrow> error + 'ev list) \<Rightarrow> int \<Rightarrow> int \<Rightarrow> int \<Rightarrow> 'f
     \<Rightarrow> 'f log_call io \<Rightarrow> ((error + 'ev list) \<times> 'f log_call io) option"
where
  "get_events getLogs from_block to_block batch_size argument_filters s =
     (if to_block < from_block then Some (Inl ValueError, s)
      else get_events_loop getLogs to_block batch_size argument_filters from_block [] s)"

text \<open>
  For stating what the fetcher does: \<open>partitions rs from_block to_block\<close> says that
  the inclusive ranges \<open>rs\<close>, in their order, are non-empty, start at \<open>from_block\<close>,
  each begin one past the end of the one before, and end at \<open>to_block\<close>.
  \<open>issued_ranges s s'\<close> are the ranges of the calls made between the states \<open>s\<close>
  and \<open>s'\<close>.
\<close>

fun partitions :: "(int \<times> int) list \<Rightarrow> int \<Rightarrow> int \<Rightarrow> bool" where
  "partitions [] from_block to_block = (from_block = to_block + 1)"
| "partitions ((a, b) # rs) from_block to_block =
     (a = from_block \<and> a \<le> b \<and> b \<le> to_block \<and> partitions rs (b + 1) to_block)"

definition issued_ranges :: "'f log_call io \<Rightarrow> 'f log_call io \<Rightarrow> (int \<times> int) list" where
  "issued_ranges s s' = map (\<lambda>(a, b, f). (a, b)) (drop (length (calls s)) (calls s'))"

section \<open>The closest-block locator (tools/utils.py)\<close>

record BlockData =
  number :: int
  timestamp :: int

text \<open>
  The node: \<open>web3.eth.block_number\<close>, and for each block number the timestamp of the
  block the node answers \<open>get_block\<close> with, or the exception it raises. The block
  returned for number \<open>n\<close> carries the number \<open>n\<close>.
\<close>

record web3 =
  block_number :: "error + int"
  block_timestamp :: "int \<Rightarrow> error + int"

definition get_block :: "web3 \<Rightarrow> int \<Rightarrow> error + BlockData" where
  "get_block w n =
     (case block_timestamp w n of
        Inl e \<Rightarrow> Inl e
      | Inr ts \<Rightarrow> Inr \<lparr>number = n, timestamp = ts\<rparr>)"

text \<open>
  How the \<open>while start_block_number <= end_block_number\<close> loop ends: an exception of
  \<open>get_block\<close>, the \<open>return block\<close> of an exact match, or the loop condition
  failing with \<open>closest_block\<close> as it then is.
\<close>

datatype bisect_result =
    Raised error
  | Returned BlockData
  | Exhausted "BlockData option"

text \<open>The last component is the list of block numbers fetched so far, in order.\<close>

function bisect ::
  "web3 \<Rightarrow> int \<Rightarrow> int \<Rightarrow> int \<Rightarrow> BlockData option \<Rightarrow> int \<Rightarrow> int list \<Rightarrow> bisect_result \<times> int list"
where
  "bisect w wanted_timestamp start_block_number end_block_number closest_block closest_diff
     fetched =
     (if start_block_number \<le> end_block_number then
        (let target_block_number = (start_block_number + end_block_number) div 2;
             fetched1 = fetched @ [target_block_number]
         in case get_block w target_block_number of
              Inl e \<Rightarrow> (Raised e, fetched1)
            | Inr block \<Rightarrow>
               (let block_timestamp = timestamp block;
                    diff = block_timestamp - wanted_timestamp;
                    closest_diff1 = (if \<bar>diff\<bar> < closest_diff then \<bar>diff\<bar> else closest_diff);
                    closest_block1 = (if \<bar>diff\<bar> < closest_diff then Some block
                                      else closest_block)
                in if block_timestamp > wanted_timestamp then
                     bisect w wanted_timestamp start_block_number (number block - 1)
                       closest_block1 closest_diff1 fetched1
                   else if block_timestamp < wanted_timestamp then
                     bisect w wanted_timestamp (number block + 1) end_block_number
                       closest_block1 closest_diff1 fetched1
                   else (Returned block, fetched1)))
      else (Exhausted closest_block, fetched))"
  by pat_completeness auto
termination
proof (relation "measure (\<lambda>(w, t, lo, hi, cb, cd, f). nat (hi + 1 - lo))")
  show "wf (measure (\<lambda>(w, t, lo, hi, cb, cd, f). nat (hi + 1 - lo)))"
    by simp
qed (auto simp: get_block_def split: sum.splits)

definition get_closest_block ::
  "web3 \<Rightarrow> int \<Rightarrow> bool \<Rightarrow> (error + BlockData) \<times> int list"
where
  "get_closest_block w wanted_timestamp not_before =
     (case block_number w of
        Inl e \<Rightarrow> (Inl e, [])
      | Inr end_block_number \<Rightarrow>
         (case bisect w wanted_timestamp 1 end_block_number None (2 ^ 256 - 1) [] of
            (Raised e, fetched) \<Rightarrow> (Inl e, fetched)
          | (Returned block, fetched) \<Rightarrow> (Inr block, fetched)
          | (Exhausted None, fetched) \<Rightarrow> (Inl LookupError, fetched)
          | (Exhausted (Some closest_block), fetched) \<Rightarrow>
              if not_before \<and> timestamp closest_block < wanted_timestamp then
                (get_block w (number closest_block + 1),
                 fetched @ [number closest_block + 1])
              else (Inr closest_block, fetched)))"

text \<open>
  For stating what the loop keeps: \<open>keep_closest T t (closest_block, closest_diff) ps\<close>
  runs the update of lines 176 to 178 over the blocks numbered \<open>ps\<close>, in order, where
  \<open>T\<close> gives the timestamp of each block.
\<close>

fun keep_closest ::
  "(int \<Rightarrow> int) \<Rightarrow> int \<Rightarrow> BlockData option \<times> int \<Rightarrow> int list \<Rightarrow> BlockData option \<times> int"
where
  "keep_closest T t best [] = best"
| "keep_closest T t best (p # ps) =
     keep_closest T t
       (if \<bar>T p - t\<bar> < snd best then (Some \<lparr>number = p, timestamp = T p\<rparr>, \<bar>T p - t\<bar>)
        else best) ps"

text \<open>
  Three nodes to run the locator on. \<open>scenario_node\<close> is the specification's
  end-to-end scenario: latest block 100, block \<open>n\<close> has timestamp \<open>1000 * n\<close>.
  \<open>short_node\<close> has four blocks, with timestamps 1, 1, 1 and 9. \<open>one_block_node\<close>
  has the single block 1, with timestamp 10. A block a node does not have is answered
  with an exception.
\<close>

definition scenario_node :: web3 where
  "scenario_node =
     \<lparr>block_number = Inr 100,
      block_timestamp = (\<lambda>n. if 0 \<le> n \<and> n \<le> 100 then Inr (1000 * n) else Inl (RpcError 404))\<rparr>"

definition short_node :: web3 where
  "short_node =
     \<lparr>block_number = Inr 4,
      block_timestamp =
        (\<lambda>n. if 1 \<le> n \<and> n \<le> 3 then Inr 1 else if n = 4 then Inr 9 else Inl (RpcError 404))\<rparr>"

definition one_block_node :: web3 where
  "one_block_node =
     \<lparr>block_number = Inr 1,
      block_timestamp = (\<lambda>n. if n = 1 then Inr 10 else Inl (RpcError 404))\<rparr>"

section \<open>The Uint256 column type: results\<close>

text \<open>
  Claim C9, as stated, at the value \<open>-1\<close>: the column type does not return the clamped
  value \<open>0\<close> (nor any value); it raises.
\<close>

theorem uint256_clamp_counterexample:
  "clamp_uint256 (- 1) = 0
   \<and> process_result_value (IntV (- 1)) \<noteq> Inr (IntV (clamp_uint256 (- 1)))
   \<and> process_result_value (IntV (- 1)) = Inl TypeError
   \<and> process_bind_param (DecimalV (- 1)) = Inl TypeError"
  by (simp add: clamp_uint256_def process_result_value_def
      coerce_and_validate_uint256_def MAX_UINT256_def)

text \<open>
  Claim C9, amended: an integer value outside \<open>[0, 2^256 - 1]\<close> passed through
  \<open>process_result_value\<close> (as an int or a Decimal) or through \<open>process_bind_param\<close>
  as a Decimal is rejected with an error, nothing is returned; and an integer value
  inside the range is returned unchanged, as an int. So every result these paths return
  lies within \<open>[0, 2^256 - 1]\<close>.
\<close>

theorem uint256_rejects_out_of_range:
  "(i < 0 \<or> i > 2 ^ 256 - 1 \<longrightarrow>
      isl (process_result_value (IntV i))
      \<and> isl (process_result_value (DecimalV (of_int i)))
      \<and> isl (process_bind_param (DecimalV (of_int i))))
   \<and> (0 \<le> i \<and> i \<le> 2 ^ 256 - 1 \<longrightarrow>
      process_result_value (IntV i) = Inr (IntV i)
      \<and> process_result_value (DecimalV (of_int i)) = Inr (IntV i)
      \<and> process_bind_param (DecimalV (of_int i)) = Inr (IntV i))"
  by (auto simp: process_result_value_def coerce_and_validate_uint256_def MAX_UINT256_def)

theorem uint256_rejects_out_of_range_witness:
  "isl (process_result_value (IntV (2 ^ 256)))
   \<and> isl (process_result_value (DecimalV (of_int (2 ^ 256))))
   \<and> isl (process_bind_param (DecimalV (of_int (2 ^ 256))))
   \<and> process_result_value (IntV 7) = Inr (IntV 7)
   \<and> process_result_value (DecimalV (of_int 7)) = Inr (IntV 7)
   \<and> process_bind_param (DecimalV (of_int 7)) = Inr (IntV 7)"
  using uint256_rejects_out_of_range [of "2 ^ 256"] uint256_rejects_out_of_range [of 7]
  by simp


section \<open>Retrying calls: results\<close>

lemma map_upt_shift: "f 0 # map (\<lambda>i. f (Suc i)) [0..<k] = map f [0..<Suc k]"
proof -
  have "map f [0..<Suc k] = f 0 # map f [Suc 0..<Suc k]"
    by (simp only: upt_conv_Cons [of 0 "Suc k"] zero_less_Suc list.map)
  also have "map f [Suc 0..<Suc k] = map (\<lambda>i. f (Suc i)) [0..<k]"
    by (simp only: map_Suc_upt [symmetric] map_map comp_def)
  finally show ?thesis by simp
qed

lemma py_pow2_nat: "py_pow2 (int n) = 2 ^ n"
  by (simp add: py_pow2_def)

lemma retryable_loop_fails_then_succeeds:
  assumes "\<forall>i<k. isl (func (calls s @ replicate i args) args)"
    and "func (calls s @ replicate k args) args = Inr v"
    and "attempt + int k \<le> max_attempts"
  shows "retryable_loop max_attempts func args attempt s =
           (Inr v, s\<lparr>calls := calls s @ replicate (Suc k) args,
                      sleeps := sleeps s @ map (\<lambda>i. min (py_pow2 (attempt + int i)) 256) [0..<k]\<rparr>)"
  using assms
proof (induction k arbitrary: attempt s)
  case 0
  then show ?case by (simp add: Let_def)
next
  case (Suc k)
  from Suc.prems(1) have "isl (func (calls s @ replicate 0 args) args)"
    by blast
  then obtain e where e: "func (calls s) args = Inl e"
    by (cases "func (calls s) args") auto
  let ?s = "exponential_sleep attempt 256 (s\<lparr>calls := calls s @ [args]\<rparr>)"
  have cs: "calls ?s = calls s @ [args]" "sleeps ?s = sleeps s @ [min (py_pow2 attempt) 256]"
    by (simp_all add: exponential_sleep_def)
  have a: "\<forall>i<k. isl (func (calls ?s @ replicate i args) args)"
  proof (intro allI impI)
    fix i assume "i < k"
    then have "isl (func (calls s @ replicate (Suc i) args) args)"
      using Suc.prems(1) [rule_format, of "Suc i"] by simp
    then show "isl (func (calls ?s @ replicate i args) args)"
      by (simp add: cs)
  qed
  have b: "func (calls ?s @ replicate k args) args = Inr v"
    using Suc.prems(2) by (simp add: cs)
  have c: "(attempt + 1) + int k \<le> max_attempts" using Suc.prems(3) by simp
  have lt: "\<not> max_attempts \<le> attempt" using Suc.prems(3) by simp
  have step: "retryable_loop max_attempts func args attempt s
        = retryable_loop max_attempts func args (attempt + 1) ?s"
    by (subst retryable_loop.simps) (simp add: e lt Let_def)
  have sl: "min (py_pow2 attempt) 256 # map (\<lambda>i. min (py_pow2 (attempt + 1 + int i)) 256) [0..<k]
       = map (\<lambda>i. min (py_pow2 (attempt + int i)) 256) [0..<Suc k]"
    using map_upt_shift [of "\<lambda>i. min (py_pow2 (attempt + int i)) 256" k]
    by (simp add: add.assoc del: upt_Suc)
  show ?case
    unfolding step Suc.IH [OF a b c]
    by (subst sl [symmetric]) (simp add: cs exponential_sleep_def)
qed

lemma retryable_loop_always_fails:
  assumes "\<forall>h. func h args = Inl (err h)"
    and "attempt \<le> max_attempts" and "n = nat (max_attempts - attempt)"
  shows "retryable_loop max_attempts func args attempt s =
           (Inl (err (calls s @ replicate n args)),
            s\<lparr>calls := calls s @ replicate (Suc n) args,
              sleeps := sleeps s @ map (\<lambda>i. min (py_pow2 (attempt + int i)) 256) [0..<n]\<rparr>)"
  using assms(2,3)
proof (induction n arbitrary: attempt s)
  case 0
  then have "max_attempts \<le> attempt" by simp
  then show ?case
    by (subst retryable_loop.simps) (simp add: assms(1) Let_def)
next
  case (Suc n)
  let ?s = "exponential_sleep attempt 256 (s\<lparr>calls := calls s @ [args]\<rparr>)"
  have cs: "calls ?s = calls s @ [args]" "sleeps ?s = sleeps s @ [min (py_pow2 attempt) 256]"
    by (simp_all add: exponential_sleep_def)
  have lt: "\<not> max_attempts \<le> attempt" using Suc.prems by simp
  have c: "attempt + 1 \<le> max_attempts" "n = nat (max_attempts - (attempt + 1))"
    using Suc.prems by simp_all
  have step: "retryable_loop max_attempts func args attempt s
        = retryable_loop max_attempts func args (attempt + 1) ?s"
    by (subst retryable_loop.simps) (simp add: assms(1) lt Let_def)
  have sl: "min (py_pow2 attempt) 256 # map (\<lambda>i. min (py_pow2 (attempt + 1 + int i)) 256) [0..<n]
       = map (\<lambda>i. min (py_pow2 (attempt + int i)) 256) [0..<Suc n]"
    using map_upt_shift [of "\<lambda>i. min (py_pow2 (attempt + int i)) 256" n]
    by (simp add: add.assoc del: upt_Suc)
  show ?case
    unfolding step Suc.IH [OF c]
    by (subst sl [symmetric]) (simp add: cs exponential_sleep_def)
qed


lemma batch_retry_loop_fails_then_succeeds:
  assumes "\<forall>i<k. isl (getLogs (calls s @ replicate i (a, b, f)) (a, b, f))"
    and "getLogs (calls s @ replicate k (a, b, f)) (a, b, f) = Inr v"
    and "int k \<le> retries"
  shows "batch_retry_loop getLogs a b f initial retries s =
           (Inr v, s\<lparr>calls := calls s @ replicate (Suc k) (a, b, f),
                      sleeps := sleeps s
                        @ map (\<lambda>i. min (py_pow2 (initial - retries + 1 + int i)) 256) [0..<k]\<rparr>)"
  using assms
proof (induction k arbitrary: retries s)
  case 0
  then show ?case by (simp add: Let_def)
next
  case (Suc k)
  let ?c = "(a, b, f)"
  from Suc.prems(1) have "isl (getLogs (calls s @ replicate 0 ?c) ?c)"
    by blast
  then obtain e where e: "getLogs (calls s) ?c = Inl e"
    by (cases "getLogs (calls s) ?c") auto
  let ?s = "exponential_sleep (initial - (retries - 1)) 256 (s\<lparr>calls := calls s @ [?c]\<rparr>)"
  have cs: "calls ?s = calls s @ [?c]"
    "sleeps ?s = sleeps s @ [min (py_pow2 (initial - (retries - 1))) 256]"
    by (simp_all add: exponential_sleep_def)
  have a: "\<forall>i<k. isl (getLogs (calls ?s @ replicate i ?c) ?c)"
  proof (intro allI impI)
    fix i assume "i < k"
    then have "isl (getLogs (calls s @ replicate (Suc i) ?c) ?c)"
      using Suc.prems(1) [rule_format, of "Suc i"] by simp
    then show "isl (getLogs (calls ?s @ replicate i ?c) ?c)"
      by (simp add: cs)
  qed
  have b: "getLogs (calls ?s @ replicate k ?c) ?c = Inr v"
    using Suc.prems(2) by (simp add: cs)
  have c: "int k \<le> retries - 1" using Suc.prems(3) by simp
  have lt: "\<not> retries \<le> 0" using Suc.prems(3) by simp
  have step: "batch_retry_loop getLogs a b f initial retries s
        = batch_retry_loop getLogs a b f initial (retries - 1) ?s"
    by (subst batch_retry_loop.simps) (simp add: e lt Let_def)
  have sl: "min (py_pow2 (initial - (retries - 1))) 256
        # map (\<lambda>i. min (py_pow2 (initial - (retries - 1) + 1 + int i)) 256) [0..<k]
       = map (\<lambda>i. min (py_pow2 (initial - retries + 1 + int i)) 256) [0..<Suc k]"
    using map_upt_shift [of "\<lambda>i. min (py_pow2 (initial - retries + 1 + int i)) 256" k]
    by (simp add: algebra_simps del: upt_Suc)
  show ?case
    unfolding step Suc.IH [OF a b c]
    by (subst sl [symmetric]) (simp add: cs exponential_sleep_def)
qed

lemma batch_retry_loop_always_fails:
  assumes "\<forall>h. getLogs h (a, b, f) = Inl (err h)"
    and "0 \<le> retries" and "n = nat retries"
  shows "batch_retry_loop getLogs a b f initial retries s =
           (Inl (err (calls s @ replicate n (a, b, f))),
            s\<lparr>calls := calls s @ replicate (Suc n) (a, b, f),
              sleeps := sleeps s
                @ map (\<lambda>i. min (py_pow2 (initial - retries + 1 + int i)) 256) [0..<n]\<rparr>)"
  using assms(2,3)
proof (induction n arbitrary: retries s)
  case 0
  then have "retries \<le> 0" by simp
  then show ?case
    by (subst batch_retry_loop.simps) (simp add: assms(1) Let_def)
next
  case (Suc n)
  let ?c = "(a, b, f)"
  let ?s = "exponential_sleep (initial - (retries - 1)) 256 (s\<lparr>calls := calls s @ [?c]\<rparr>)"
  have cs: "calls ?s = calls s @ [?c]"
    "sleeps ?s = sleeps s @ [min (py_pow2 (initial - (retries - 1))) 256]"
    by (simp_all add: exponential_sleep_def)
  have lt: "\<not> retries \<le> 0" using Suc.prems by simp
  have c: "0 \<le> retries - 1" "n = nat (retries - 1)"
    using Suc.prems by simp_all
  have step: "batch_retry_loop getLogs a b f initial retries s
        = batch_retry_loop getLogs a b f initial (retries - 1) ?s"
    by (subst batch_retry_loop.simps) (simp add: assms(1) lt Let_def)
  have sl: "min (py_pow2 (initial - (retries - 1))) 256
        # map (\<lambda>i. min (py_pow2 (initial - (retries - 1) + 1 + int i)) 256) [0..<n]
       = map (\<lambda>i. min (py_pow2 (initial - retries + 1 + int i)) 256) [0..<Suc n]"
    using map_upt_shift [of "\<lambda>i. min (py_pow2 (initial - retries + 1 + int i)) 256" n]
    by (simp add: algebra_simps del: upt_Suc)
  show ?case
    unfolding step Suc.IH [OF c]
    by (subst sl [symmetric]) (simp add: cs exponential_sleep_def)
qed

text \<open>The schedule of the decorator: 1, 2, 4, ... seconds, each at most 256.\<close>

lemma retryable_backoff:
  assumes "\<forall>i<k. isl (func (calls s @ replicate i args) args)"
    and "func (calls s @ replicate k args) args = Inr v"
    and "int k \<le> max_attempts"
  shows "retryable max_attempts func args s =
           (Inr v, s\<lparr>calls := calls s @ replicate (Suc k) args,
                      sleeps := sleeps s @ map (\<lambda>i. min (2 ^ i) 256) [0..<k]\<rparr>)"
  using retryable_loop_fails_then_succeeds
    [where k = k and func = func and s = s and args = args and v = v and attempt = 0
       and max_attempts = max_attempts] assms
  by (simp add: retryable_def py_pow2_nat)

text \<open>The schedule of the fetcher's own retry loop: 2, 4, 8, ... seconds, each at most 256.\<close>

lemma get_event_batch_backoff:
  assumes "\<forall>i<k. isl (getLogs (calls s @ replicate i (a, b, f)) (a, b, f))"
    and "getLogs (calls s @ replicate k (a, b, f)) (a, b, f) = Inr v"
    and "int k \<le> retries"
  shows "get_event_batch_with_retries getLogs a b f retries s =
           (Inr v, s\<lparr>calls := calls s @ replicate (Suc k) (a, b, f),
                      sleeps := sleeps s @ map (\<lambda>i. min (2 ^ Suc i) 256) [0..<k]\<rparr>)"
proof -
  have "\<And>i. py_pow2 (1 + int i) = 2 ^ Suc i"
    using py_pow2_nat [of "Suc _"] by (simp add: add.commute)
  then show ?thesis
    using batch_retry_loop_fails_then_succeeds
      [where k = k and getLogs = getLogs and s = s and a = a and b = b and f = f and v = v
         and retries = retries and initial = retries] assms
    by (simp add: get_event_batch_with_retries_def)
qed

text \<open>
  Claim C3 (backoff of 1, 2, 4, ... seconds on both retry paths), evaluated where the two
  paths part: an operation that fails once and then succeeds, ten retries allowed. Both
  paths call it twice and return its value; the decorator sleeps 1 second in between, as
  the claim says, and \<open>get_event_batch_with_retries\<close> sleeps 2 seconds, because it
  decrements \<open>retries\<close> before it computes \<open>initial_retries - retries\<close>.
\<close>

theorem batch_retry_first_sleep_two_seconds:
  "get_event_batch_with_retries
     (\<lambda>h c. if h = [] then Inl (RpcError 0) else Inr [True]) 5 9 () 10
     \<lparr>calls = [], sleeps = []\<rparr>
   = (Inr [True], \<lparr>calls = [(5, 9, ()), (5, 9, ())], sleeps = [2]\<rparr>)
   \<and> retryable 10 (\<lambda>h c. if h = [] then Inl (RpcError 0) else Inr [True]) (5 :: int, 9 :: int, ())
     \<lparr>calls = [], sleeps = []\<rparr>
   = (Inr [True], \<lparr>calls = [(5, 9, ()), (5, 9, ())], sleeps = [1]\<rparr>)"
proof -
  let ?g = "\<lambda>(h :: (int \<times> int \<times> unit) list) (c :: int \<times> int \<times> unit).
              if h = [] then Inl (RpcError 0) else Inr [True]"
  let ?s = "\<lparr>calls = [] :: (int \<times> int \<times> unit) list, sleeps = []\<rparr>"
  have "get_event_batch_with_retries ?g 5 9 () 10 ?s
        = (Inr [True], \<lparr>calls = [(5, 9, ()), (5, 9, ())], sleeps = [2]\<rparr>)"
    using get_event_batch_backoff [of 1 ?g ?s 5 9 "()" "[True]" 10] by simp
  moreover have "retryable 10 ?g (5, 9, ()) ?s
        = (Inr [True], \<lparr>calls = [(5, 9, ()), (5, 9, ())], sleeps = [1]\<rparr>)"
    using retryable_backoff [of 1 ?g ?s "(5, 9, ())" "[True]" 10] by simp
  ultimately show ?thesis by simp
qed

text \<open>
  Claim C4, amended: an operation that fails on every call, retried with
  \<open>max_attempts = m\<close> (\<open>retries = m\<close> in the fetcher's loop), \<open>m\<close> not negative, is
  called exactly \<open>m + 1\<close> times, and the call then fails with the very error the last
  of these calls raised: it is re-raised as it is, with no wrapper around it and no count
  of attempts.
\<close>

theorem retry_exhausted_reraises_last_error:
  assumes "0 \<le> m"
    and "\<forall>h. func h args = Inl (err h)"
    and "\<forall>h. getLogs h (a, b, f) = Inl (err' h)"
  shows "fst (retryable m func args s) = Inl (err (calls s @ replicate (nat m) args))
       \<and> calls (snd (retryable m func args s)) = calls s @ replicate (nat m + 1) args
       \<and> fst (get_event_batch_with_retries getLogs a b f m s')
           = Inl (err' (calls s' @ replicate (nat m) (a, b, f)))
       \<and> calls (snd (get_event_batch_with_retries getLogs a b f m s'))
           = calls s' @ replicate (nat m + 1) (a, b, f)"
  using retryable_loop_always_fails
    [where func = func and args = args and err = err and attempt = 0 and max_attempts = m
       and n = "nat m" and s = s]
    batch_retry_loop_always_fails
    [where getLogs = getLogs and a = a and b = b and f = f and err = err' and retries = m
       and n = "nat m" and initial = m and s = s'] assms
  by (simp add: retryable_def get_event_batch_with_retries_def)

theorem retry_exhausted_reraises_last_error_witness:
  "fst (retryable 2 (\<lambda>h c. Inl (RpcError (length h))) () \<lparr>calls = [], sleeps = []\<rparr>)
     = (Inl (RpcError 2) :: error + bool)
   \<and> calls (snd (retryable 2 (\<lambda>h c. Inl (RpcError (length h)) :: error + bool) ()
        \<lparr>calls = [], sleeps = []\<rparr>)) = [(), (), ()]
   \<and> fst (get_event_batch_with_retries (\<lambda>h c. Inl (RpcError (length h))) 5 9 () 2
        \<lparr>calls = [], sleeps = []\<rparr>) = (Inl (RpcError 2) :: error + bool list)
   \<and> calls (snd (get_event_batch_with_retries
        (\<lambda>h c. Inl (RpcError (length h)) :: error + bool list) 5 9 () 2
        \<lparr>calls = [], sleeps = []\<rparr>)) = [(5, 9, ()), (5, 9, ()), (5, 9, ())]"
  using retry_exhausted_reraises_last_error
    [of 2 "\<lambda>h c. Inl (RpcError (length h)) :: error + bool" "()" "\<lambda>h. RpcError (length h)"
        "\<lambda>h c. Inl (RpcError (length h)) :: error + bool list" 5 9 "()"
        "\<lambda>h. RpcError (length h)"
        "\<lparr>calls = [], sleeps = []\<rparr>" "\<lparr>calls = [], sleeps = []\<rparr>"]
  by (simp add: numeral_eq_Suc)

text \<open>
  Claim C4, as stated, with \<open>max_attempts = 1\<close>: after the two failing calls the error
  that reaches the caller is the second call's \<open>RpcError 1\<close> itself, not a
  \<open>RetriesExhaustedError\<close> that wraps it with the number of attempts.
\<close>

theorem retry_exhausted_not_wrapped_counterexample:
  "fst (retryable 1 (\<lambda>h c. Inl (RpcError (length h))) () \<lparr>calls = [], sleeps = []\<rparr>)
     \<noteq> (Inl (RetriesExhaustedError (RpcError 1) 2) :: error + bool)
   \<and> fst (retryable 1 (\<lambda>h c. Inl (RpcError (length h))) () \<lparr>calls = [], sleeps = []\<rparr>)
     = (Inl (RpcError 1) :: error + bool)
   \<and> fst (get_event_batch_with_retries (\<lambda>h c. Inl (RpcError (length h))) 5 9 () 1
        \<lparr>calls = [], sleeps = []\<rparr>) = (Inl (RpcError 1) :: error + bool list)"
  using retryable_loop_always_fails
    [of "\<lambda>h c. Inl (RpcError (length h)) :: error + bool" "()" "\<lambda>h. RpcError (length h)"
        0 1 1 "\<lparr>calls = [], sleeps = []\<rparr>"]
    batch_retry_loop_always_fails
    [of "\<lambda>h c. Inl (RpcError (length h)) :: error + bool list" 5 9 "()"
        "\<lambda>h. RpcError (length h)" 1 1 1 "\<lparr>calls = [], sleeps = []\<rparr>"]
  by (simp add: retryable_def get_event_batch_with_retries_def)

section \<open>The batched log fetcher: results\<close>

text \<open>
  Claim C5: with \<open>to_block < from_block\<close>, \<open>get_events\<close> raises its range error
  (\<open>ValueError\<close> in the source) at once: the record of calls and sleeps is the one it
  was given, so no fetch was made, and there is no output.
\<close>

theorem get_events_rejects_empty_range:
  "to_block < from_block \<Longrightarrow>
     get_events getLogs from_block to_block batch_size argument_filters s
       = Some (Inl ValueError, s)"
  by (simp add: get_events_def)

theorem get_events_rejects_empty_range_witness:
  "(4 :: int) < 5
   \<and> get_events (\<lambda>h c. Inr [True]) 5 4 1000 () \<lparr>calls = [], sleeps = []\<rparr>
     = Some (Inl ValueError, \<lparr>calls = [], sleeps = []\<rparr>)"
  using get_events_rejects_empty_range
    [of 4 5 "\<lambda>h c. Inr [True]" 1000 "()" "\<lparr>calls = [], sleeps = []\<rparr>"]
  by simp

lemma get_event_batch_first_try:
  "getLogs (calls s) (a, b, f) = Inr v \<Longrightarrow>
     get_event_batch_with_retries getLogs a b f r s = (Inr v, s\<lparr>calls := calls s @ [(a, b, f)]\<rparr>)"
  by (simp add: get_event_batch_with_retries_def Let_def)

lemma get_events_loop_partition:
  assumes ok: "\<forall>h a b. getLogs h (a, b, f) = Inr (F a b)"
    and cat: "\<forall>a b c. a \<le> b \<and> b < c \<longrightarrow> F a c = F a b @ F (b + 1) c"
    and bs: "0 \<le> batch_size"
  shows "cur \<le> to_block + 1 \<Longrightarrow>
     \<exists>s' rs. get_events_loop getLogs to_block batch_size f cur ret s
               = Some (Inr (ret @ (if cur \<le> to_block then F cur to_block else [])), s')
        \<and> sleeps s' = sleeps s
        \<and> calls s' = calls s @ map (\<lambda>(a, b). (a, b, f)) rs
        \<and> partitions rs cur to_block
        \<and> (\<forall>(a, b) \<in> set rs. b - a \<le> batch_size)"
proof (induction "nat (to_block + 1 - cur)" arbitrary: cur ret s rule: less_induct)
  case less
  show ?case
  proof (cases "cur \<le> to_block")
    case False
    with less.prems have "cur = to_block + 1" by simp
    then have "get_events_loop getLogs to_block batch_size f cur ret s = Some (Inr ret, s)"
      by (subst get_events_loop.simps) simp
    then show ?thesis
      using False \<open>cur = to_block + 1\<close>
      by (intro exI [of _ s] exI [of _ "[]"]) simp
  next
    case True
    define bt where "bt = min (cur + batch_size) to_block"
    have bt: "cur \<le> bt" "bt \<le> to_block" "bt - cur \<le> batch_size"
      using True bs by (simp_all add: bt_def)
    let ?s1 = "s\<lparr>calls := calls s @ [(cur, bt, f)]\<rparr>"
    have fetch: "get_event_batch_with_retries getLogs cur bt f 10 s = (Inr (F cur bt), ?s1)"
      by (rule get_event_batch_first_try) (simp add: ok)
    have step: "get_events_loop getLogs to_block batch_size f cur ret s
          = get_events_loop getLogs to_block batch_size f (bt + 1) (ret @ F cur bt) ?s1"
      by (subst get_events_loop.simps) (simp add: True Let_def bt_def [symmetric] fetch)
    have "nat (to_block + 1 - (bt + 1)) < nat (to_block + 1 - cur)" "bt + 1 \<le> to_block + 1"
      using bt True by simp_all
    from less.hyps [OF this, of "ret @ F cur bt" ?s1]
    obtain s' rs where
      r: "get_events_loop getLogs to_block batch_size f (bt + 1) (ret @ F cur bt) ?s1
            = Some (Inr ((ret @ F cur bt)
                @ (if bt + 1 \<le> to_block then F (bt + 1) to_block else [])), s')"
      and sl: "sleeps s' = sleeps ?s1"
      and cl: "calls s' = calls ?s1 @ map (\<lambda>(a, b). (a, b, f)) rs"
      and pt: "partitions rs (bt + 1) to_block"
      and wd: "\<forall>(a, b) \<in> set rs. b - a \<le> batch_size"
      by blast
    have res: "F cur bt @ (if bt + 1 \<le> to_block then F (bt + 1) to_block else [])
          = F cur to_block"
    proof (cases "bt + 1 \<le> to_block")
      case True
      then have "bt < to_block" by simp
      with cat [rule_format, of cur bt to_block] bt(1) True show ?thesis by simp
    next
      case False
      with bt(2) have "bt = to_block" by simp
      then show ?thesis by simp
    qed
    show ?thesis
      using r sl cl pt wd bt True res
      by (intro exI [of _ s'] exI [of _ "(cur, bt) # rs"]) (simp add: step)
  qed
qed

text \<open>
  Claim C1: for \<open>from_block \<le> to_block\<close>, a \<open>batch_size\<close> that is not negative
  (the claim's \<open>batch_size \<ge> 1\<close> included), any filter, and a collaborator whose
  \<open>getLogs\<close> succeeds with \<open>F a b\<close> on the range \<open>[a, b]\<close>, where \<open>F\<close> is
  concatenative over adjacent ranges: \<open>get_events\<close> returns, it never sleeps, the
  ranges it fetches (all with the given filter) partition \<open>[from_block, to_block]\<close> in
  increasing order without gap or overlap, each covers at most \<open>batch_size + 1\<close>
  blocks, and the result is \<open>F from_block to_block\<close>, what one fetch over the whole
  range returns.
\<close>

theorem get_events_partitions_range:
  assumes "from_block \<le> to_block" and "0 \<le> batch_size"
    and "\<forall>h a b. getLogs h (a, b, f) = Inr (F a b)"
    and "\<forall>a b c. a \<le> b \<and> b < c \<longrightarrow> F a c = F a b @ F (b + 1) c"
  shows "\<exists>s'. get_events getLogs from_block to_block batch_size f s
                 = Some (Inr (F from_block to_block), s')
           \<and> sleeps s' = sleeps s
           \<and> calls s' = calls s @ map (\<lambda>(a, b). (a, b, f)) (issued_ranges s s')
           \<and> partitions (issued_ranges s s') from_block to_block
           \<and> (\<forall>(a, b) \<in> set (issued_ranges s s'). b - a + 1 \<le> batch_size + 1)"
proof -
  from get_events_loop_partition [OF assms(3,4,2), of from_block to_block "[]" s] assms(1)
  obtain s' rs where
    r: "get_events_loop getLogs to_block batch_size f from_block [] s
          = Some (Inr (F from_block to_block), s')"
    and sl: "sleeps s' = sleeps s"
    and cl: "calls s' = calls s @ map (\<lambda>(a, b). (a, b, f)) rs"
    and pt: "partitions rs from_block to_block"
    and wd: "\<forall>(a, b) \<in> set rs. b - a \<le> batch_size"
    by auto
  have "issued_ranges s s' = rs"
    by (simp add: issued_ranges_def cl comp_def case_prod_unfold)
  then show ?thesis
    using r sl cl pt wd assms(1) by (intro exI [of _ s']) (auto simp: get_events_def)
qed


theorem get_events_partitions_range_witness:
  "get_events (\<lambda>h (a, b, f). Inr [a..b]) 1 7 2 () \<lparr>calls = [], sleeps = []\<rparr>
     = Some (Inr [1, 2, 3, 4, 5, 6, 7],
             \<lparr>calls = [(1, 3, ()), (4, 6, ()), (7, 7, ())], sleeps = []\<rparr>)
   \<and> issued_ranges \<lparr>calls = [], sleeps = []\<rparr>
         \<lparr>calls = [(1, 3, ()), (4, 6, ()), (7, 7, ())], sleeps = []\<rparr>
       = [(1, 3), (4, 6), (7, 7)]
   \<and> partitions [(1, 3), (4, 6), (7, 7)] 1 7"
proof -
  let ?g = "\<lambda>(h :: unit log_call list) (a, b, f :: unit). Inr [a..b] :: error + int list"
  let ?s = "\<lparr>calls = [] :: unit log_call list, sleeps = []\<rparr>"
  have ok: "\<forall>h a b. ?g h (a, b, ()) = Inr ([a..b])" by simp
  have cat: "\<forall>a b c :: int. a \<le> b \<and> b < c \<longrightarrow> [a..c] = [a..b] @ [b + 1..c]"
    by (simp add: upto_split2)
  have v: "[1..7] = [1, 2, 3, 4, 5, 6, 7 :: int]" by (simp add: upto_rec1)
  have run: "get_events ?g 1 7 2 () ?s
     = Some (Inr [1, 2, 3, 4, 5, 6, 7],
             \<lparr>calls = [(1, 3, ()), (4, 6, ()), (7, 7, ())], sleeps = []\<rparr>)"
    by (simp add: get_events_def get_events_loop.simps get_event_batch_with_retries_def
        Let_def upto_rec1)
  from get_events_partitions_range [of 1 7 2 ?g "()" "\<lambda>a b. [a..b]" ?s, OF _ _ ok cat]
  obtain s' where s': "get_events ?g 1 7 2 () ?s = Some (Inr [1..7], s')"
    and p: "partitions (issued_ranges ?s s') 1 7"
    by auto
  from s' run have "s' = \<lparr>calls = [(1, 3, ()), (4, 6, ()), (7, 7, ())], sleeps = []\<rparr>"
    by simp
  with p run show ?thesis
    by (simp add: issued_ranges_def)
qed

section \<open>The closest-block locator: results\<close>

declare bisect.simps [simp del]

lemma bisect_exit:
  "\<not> lo \<le> hi \<Longrightarrow> bisect w t lo hi cb cd ps = (Exhausted cb, ps)"
  by (subst bisect.simps) simp

lemma bisect_raise:
  "lo \<le> hi \<Longrightarrow> block_timestamp w ((lo + hi) div 2) = Inl e \<Longrightarrow>
     bisect w t lo hi cb cd ps = (Raised e, ps @ [(lo + hi) div 2])"
  by (subst bisect.simps) (simp add: get_block_def Let_def)

lemma bisect_after:
  "lo \<le> hi \<Longrightarrow> block_timestamp w ((lo + hi) div 2) = Inr ts \<Longrightarrow> t < ts \<Longrightarrow>
     bisect w t lo hi cb cd ps =
       bisect w t lo ((lo + hi) div 2 - 1)
         (if \<bar>ts - t\<bar> < cd then Some \<lparr>number = (lo + hi) div 2, timestamp = ts\<rparr> else cb)
         (if \<bar>ts - t\<bar> < cd then \<bar>ts - t\<bar> else cd) (ps @ [(lo + hi) div 2])"
  by (subst bisect.simps) (simp add: get_block_def Let_def)

lemma bisect_before:
  "lo \<le> hi \<Longrightarrow> block_timestamp w ((lo + hi) div 2) = Inr ts \<Longrightarrow> ts < t \<Longrightarrow>
     bisect w t lo hi cb cd ps =
       bisect w t ((lo + hi) div 2 + 1) hi
         (if \<bar>ts - t\<bar> < cd then Some \<lparr>number = (lo + hi) div 2, timestamp = ts\<rparr> else cb)
         (if \<bar>ts - t\<bar> < cd then \<bar>ts - t\<bar> else cd) (ps @ [(lo + hi) div 2])"
  by (subst bisect.simps) (simp add: get_block_def Let_def)

lemma bisect_exact:
  "lo \<le> hi \<Longrightarrow> block_timestamp w ((lo + hi) div 2) = Inr t \<Longrightarrow>
     bisect w t lo hi cb cd ps =
       (Returned \<lparr>number = (lo + hi) div 2, timestamp = t\<rparr>, ps @ [(lo + hi) div 2])"
  by (subst bisect.simps) (simp add: get_block_def Let_def)

lemma keep_closest_step:
  "keep_closest T t (cb, cd) (p # ps) =
     keep_closest T t
       (if \<bar>T p - t\<bar> < cd then Some \<lparr>number = p, timestamp = T p\<rparr> else cb,
        if \<bar>T p - t\<bar> < cd then \<bar>T p - t\<bar> else cd) ps"
  by simp

text \<open>
  The run of the loop on a node that serves the blocks 1 to N: the blocks it fetches lie
  between the two bounds; either no fetched block has the wanted timestamp and the loop
  ends with the closest of them, the first one among equals, or the last fetched block is
  the first with the wanted timestamp and is returned.
\<close>

lemma bisect_trace:
  assumes ok: "\<forall>n. 1 \<le> n \<and> n \<le> N \<longrightarrow> block_timestamp w n = Inr (T n)"
  shows "1 \<le> lo \<Longrightarrow> hi \<le> N \<Longrightarrow>
     \<exists>qs. set qs \<subseteq> {lo..hi}
       \<and> ((bisect w t lo hi cb cd ps = (Exhausted (fst (keep_closest T t (cb, cd) qs)), ps @ qs)
            \<and> (\<forall>p \<in> set qs. T p \<noteq> t))
          \<or> (qs \<noteq> []
            \<and> bisect w t lo hi cb cd ps
                = (Returned \<lparr>number = last qs, timestamp = t\<rparr>, ps @ qs)
            \<and> T (last qs) = t \<and> (\<forall>p \<in> set (butlast qs). T p \<noteq> t)))"
proof (induction "nat (hi + 1 - lo)" arbitrary: lo hi cb cd ps rule: less_induct)
  case less
  show ?case
  proof (cases "lo \<le> hi")
    case False
    then show ?thesis
      by (intro exI [of _ "[]"]) (simp add: bisect_exit)
  next
    case True
    define mid where "mid = (lo + hi) div 2"
    have mid: "lo \<le> mid" "mid \<le> hi" using True by (simp_all add: mid_def)
    then have ts: "block_timestamp w mid = Inr (T mid)"
      using ok less.prems by simp
    let ?cb = "if \<bar>T mid - t\<bar> < cd then Some \<lparr>number = mid, timestamp = T mid\<rparr> else cb"
    let ?cd = "if \<bar>T mid - t\<bar> < cd then \<bar>T mid - t\<bar> else cd"
    consider (after) "t < T mid" | (before) "T mid < t" | (exact) "T mid = t"
      by linarith
    then show ?thesis
    proof cases
      case after
      have step: "bisect w t lo hi cb cd ps = bisect w t lo (mid - 1) ?cb ?cd (ps @ [mid])"
        unfolding mid_def
        by (rule bisect_after [OF True ts [unfolded mid_def] after [unfolded mid_def]])
      have "nat (mid - 1 + 1 - lo) < nat (hi + 1 - lo)" "1 \<le> lo" "mid - 1 \<le> N"
        using mid less.prems by simp_all
      from less.hyps [OF this, of ?cb ?cd "ps @ [mid]"]
      obtain qs where qs: "set qs \<subseteq> {lo..mid - 1}"
        and r: "(bisect w t lo (mid - 1) ?cb ?cd (ps @ [mid])
                  = (Exhausted (fst (keep_closest T t (?cb, ?cd) qs)), (ps @ [mid]) @ qs)
              \<and> (\<forall>p \<in> set qs. T p \<noteq> t))
            \<or> (qs \<noteq> []
              \<and> bisect w t lo (mid - 1) ?cb ?cd (ps @ [mid])
                  = (Returned \<lparr>number = last qs, timestamp = t\<rparr>, (ps @ [mid]) @ qs)
              \<and> T (last qs) = t \<and> (\<forall>p \<in> set (butlast qs). T p \<noteq> t))"
        by blast
      have sub: "set (mid # qs) \<subseteq> {lo..hi}" using qs mid by auto
      have ne: "T mid \<noteq> t" using after by simp
      show ?thesis
        using r sub ne unfolding step
        by (intro exI [of _ "mid # qs"]) (auto simp: keep_closest_step simp del: keep_closest.simps)
    next
      case before
      have step: "bisect w t lo hi cb cd ps = bisect w t (mid + 1) hi ?cb ?cd (ps @ [mid])"
        unfolding mid_def
        by (rule bisect_before [OF True ts [unfolded mid_def] before [unfolded mid_def]])
      have "nat (hi + 1 - (mid + 1)) < nat (hi + 1 - lo)" "1 \<le> mid + 1" "hi \<le> N"
        using mid less.prems by simp_all
      from less.hyps [OF this, of ?cb ?cd "ps @ [mid]"]
      obtain qs where qs: "set qs \<subseteq> {mid + 1..hi}"
        and r: "(bisect w t (mid + 1) hi ?cb ?cd (ps @ [mid])
                  = (Exhausted (fst (keep_closest T t (?cb, ?cd) qs)), (ps @ [mid]) @ qs)
              \<and> (\<forall>p \<in> set qs. T p \<noteq> t))
            \<or> (qs \<noteq> []
              \<and> bisect w t (mid + 1) hi ?cb ?cd (ps @ [mid])
                  = (Returned \<lparr>number = last qs, timestamp = t\<rparr>, (ps @ [mid]) @ qs)
              \<and> T (last qs) = t \<and> (\<forall>p \<in> set (butlast qs). T p \<noteq> t))"
        by blast
      have sub: "set (mid # qs) \<subseteq> {lo..hi}" using qs mid by auto
      have ne: "T mid \<noteq> t" using before by simp
      show ?thesis
        using r sub ne unfolding step
        by (intro exI [of _ "mid # qs"]) (auto simp: keep_closest_step simp del: keep_closest.simps)
    next
      case exact
      have "bisect w t lo hi cb cd ps = (Returned \<lparr>number = mid, timestamp = t\<rparr>, ps @ [mid])"
        using bisect_exact [OF True, of w t cb cd ps] ts exact by (simp add: mid_def)
      then show ?thesis
        using mid exact by (intro exI [of _ "[mid]"]) simp
    qed
  qed
qed


lemma bisect_fetched_prefix:
  assumes ok: "\<forall>n. 1 \<le> n \<and> n \<le> N \<longrightarrow> block_timestamp w n = Inr (T n)"
    and "1 \<le> lo" "hi \<le> N"
  shows "set ps \<subseteq> set (snd (bisect w t lo hi cb cd ps))"
  using bisect_trace [OF ok assms(2,3), of t cb cd ps] by auto

text \<open>With non-decreasing timestamps, a block with the wanted timestamp is found.\<close>

lemma bisect_finds_exact:
  assumes ok: "\<forall>n. 1 \<le> n \<and> n \<le> N \<longrightarrow> block_timestamp w n = Inr (T n)"
    and mono: "\<forall>i j. 1 \<le> i \<and> i \<le> j \<and> j \<le> N \<longrightarrow> T i \<le> T j"
  shows "1 \<le> lo \<Longrightarrow> hi \<le> N \<Longrightarrow> lo \<le> j \<Longrightarrow> j \<le> hi \<Longrightarrow> T j = t \<Longrightarrow>
     \<exists>b qs. bisect w t lo hi cb cd ps = (Returned b, qs)"
proof (induction "nat (hi + 1 - lo)" arbitrary: lo hi cb cd ps rule: less_induct)
  case less
  have True: "lo \<le> hi" using less.prems by simp
  define mid where "mid = (lo + hi) div 2"
  have mid: "lo \<le> mid" "mid \<le> hi" using True by (simp_all add: mid_def)
  then have ts: "block_timestamp w mid = Inr (T mid)"
    using ok less.prems by simp
  let ?cb = "if \<bar>T mid - t\<bar> < cd then Some \<lparr>number = mid, timestamp = T mid\<rparr> else cb"
  let ?cd = "if \<bar>T mid - t\<bar> < cd then \<bar>T mid - t\<bar> else cd"
  consider (after) "t < T mid" | (before) "T mid < t" | (exact) "T mid = t"
    by linarith
  then show ?case
  proof cases
    case after
    have step: "bisect w t lo hi cb cd ps = bisect w t lo (mid - 1) ?cb ?cd (ps @ [mid])"
      unfolding mid_def
      by (rule bisect_after [OF True ts [unfolded mid_def] after [unfolded mid_def]])
    have "j < mid"
    proof (rule ccontr)
      assume "\<not> j < mid"
      then have "T mid \<le> T j" using mono [rule_format, of mid j] mid less.prems by simp
      with after less.prems show False by simp
    qed
    then have "nat (mid - 1 + 1 - lo) < nat (hi + 1 - lo)" "1 \<le> lo" "mid - 1 \<le> N"
      "lo \<le> j" "j \<le> mid - 1" "T j = t"
      using mid less.prems by simp_all
    from less.hyps [OF this] show ?thesis unfolding step .
  next
    case before
    have step: "bisect w t lo hi cb cd ps = bisect w t (mid + 1) hi ?cb ?cd (ps @ [mid])"
      unfolding mid_def
      by (rule bisect_before [OF True ts [unfolded mid_def] before [unfolded mid_def]])
    have "mid < j"
    proof (rule ccontr)
      assume "\<not> mid < j"
      then have "T j \<le> T mid" using mono [rule_format, of j mid] mid less.prems by simp
      with before less.prems show False by simp
    qed
    then have "nat (hi + 1 - (mid + 1)) < nat (hi + 1 - lo)" "1 \<le> mid + 1" "hi \<le> N"
      "mid + 1 \<le> j" "j \<le> hi" "T j = t"
      using mid less.prems by simp_all
    from less.hyps [OF this] show ?thesis unfolding step .
  next
    case exact
    show ?thesis
      using bisect_exact [OF True, of w t cb cd ps] ts exact by (simp add: mid_def)
  qed
qed

text \<open>
  With non-decreasing timestamps and the wanted timestamp strictly between those of the
  blocks \<open>k\<close> and \<open>k + 1\<close>, the loop fetches both of them.
\<close>

lemma bisect_visits:
  assumes ok: "\<forall>n. 1 \<le> n \<and> n \<le> N \<longrightarrow> block_timestamp w n = Inr (T n)"
    and mono: "\<forall>i j. 1 \<le> i \<and> i \<le> j \<and> j \<le> N \<longrightarrow> T i \<le> T j"
    and k: "1 \<le> k" "k + 1 \<le> N" "T k < t" "t < T (k + 1)"
  shows "1 \<le> lo \<Longrightarrow> hi \<le> N \<Longrightarrow> lo \<le> k + 1 \<Longrightarrow> k \<le> hi \<Longrightarrow>
     (lo \<le> k \<longrightarrow> k \<in> set (snd (bisect w t lo hi cb cd ps)))
     \<and> (k + 1 \<le> hi \<longrightarrow> k + 1 \<in> set (snd (bisect w t lo hi cb cd ps)))"
proof (induction "nat (hi + 1 - lo)" arbitrary: lo hi cb cd ps rule: less_induct)
  case less
  show ?case
  proof (cases "lo \<le> hi")
    case False
    with less.prems show ?thesis by simp
  next
    case True
    define mid where "mid = (lo + hi) div 2"
    have mid: "lo \<le> mid" "mid \<le> hi" using True by (simp_all add: mid_def)
    then have ts: "block_timestamp w mid = Inr (T mid)"
      using ok less.prems by simp
    let ?cb = "if \<bar>T mid - t\<bar> < cd then Some \<lparr>number = mid, timestamp = T mid\<rparr> else cb"
    let ?cd = "if \<bar>T mid - t\<bar> < cd then \<bar>T mid - t\<bar> else cd"
    have le_k: "mid \<le> k \<Longrightarrow> T mid < t"
    proof -
      assume "mid \<le> k"
      then have "T mid \<le> T k" using mono [rule_format, of mid k] mid less.prems k by simp
      with k show ?thesis by simp
    qed
    have ge_k: "k + 1 \<le> mid \<Longrightarrow> t < T mid"
    proof -
      assume "k + 1 \<le> mid"
      then have "T (k + 1) \<le> T mid"
        using mono [rule_format, of "k + 1" mid] mid less.prems k by simp
      with k show ?thesis by simp
    qed
    consider (after) "k + 1 \<le> mid" | (before) "mid \<le> k" by linarith
    then show ?thesis
    proof cases
      case after
      have step: "bisect w t lo hi cb cd ps = bisect w t lo (mid - 1) ?cb ?cd (ps @ [mid])"
        unfolding mid_def
        by (rule bisect_after [OF True ts [unfolded mid_def] ge_k [OF after, unfolded mid_def]])
      have p: "nat (mid - 1 + 1 - lo) < nat (hi + 1 - lo)" "1 \<le> lo" "mid - 1 \<le> N"
        "lo \<le> k + 1" "k \<le> mid - 1"
        using mid less.prems after by simp_all
      have "mid \<in> set (snd (bisect w t lo (mid - 1) ?cb ?cd (ps @ [mid])))"
        using bisect_fetched_prefix [OF ok p(2,3), of "ps @ [mid]" t ?cb ?cd] by simp
      with less.hyps [OF p, of ?cb ?cd "ps @ [mid]"] after show ?thesis
        unfolding step by (cases "mid = k + 1") auto
    next
      case before
      have step: "bisect w t lo hi cb cd ps = bisect w t (mid + 1) hi ?cb ?cd (ps @ [mid])"
        unfolding mid_def
        by (rule bisect_before [OF True ts [unfolded mid_def] le_k [OF before, unfolded mid_def]])
      have p: "nat (hi + 1 - (mid + 1)) < nat (hi + 1 - lo)" "1 \<le> mid + 1" "hi \<le> N"
        "mid + 1 \<le> k + 1" "k \<le> hi"
        using mid less.prems before by simp_all
      have "mid \<in> set (snd (bisect w t (mid + 1) hi ?cb ?cd (ps @ [mid])))"
        using bisect_fetched_prefix [OF ok p(2,3), of "ps @ [mid]" t ?cb ?cd] by simp
      with less.hyps [OF p, of ?cb ?cd "ps @ [mid]"] before show ?thesis
        unfolding step by (cases "mid = k") auto
    qed
  qed
qed

lemma keep_closest_unchanged:
  "\<forall>p \<in> set ps. cd \<le> \<bar>T p - t\<bar> \<Longrightarrow> keep_closest T t (cb, cd) ps = (cb, cd)"
  by (induction ps) auto

lemma keep_closest_first_nearest:
  "\<forall>p \<in> set ps. m \<le> \<bar>T p - t\<bar> \<Longrightarrow> m < cd \<Longrightarrow>
   find (\<lambda>p. \<bar>T p - t\<bar> = m) ps = Some q \<Longrightarrow>
     keep_closest T t (cb, cd) ps = (Some \<lparr>number = q, timestamp = T q\<rparr>, m)"
proof (induction ps arbitrary: cb cd)
  case Nil
  then show ?case by simp
next
  case (Cons p ps)
  show ?case
  proof (cases "\<bar>T p - t\<bar> = m")
    case True
    with Cons.prems have "q = p" by simp
    moreover have "keep_closest T t (Some \<lparr>number = p, timestamp = T p\<rparr>, m) ps
        = (Some \<lparr>number = p, timestamp = T p\<rparr>, m)"
      using Cons.prems(1) by (intro keep_closest_unchanged) simp
    ultimately show ?thesis using True Cons.prems(2) by simp
  next
    case False
    with Cons.prems have f: "find (\<lambda>p. \<bar>T p - t\<bar> = m) ps = Some q"
      and lt: "m < \<bar>T p - t\<bar>" and rest: "\<forall>p \<in> set ps. m \<le> \<bar>T p - t\<bar>"
      by auto
    show ?thesis
    proof (cases "\<bar>T p - t\<bar> < cd")
      case True
      then show ?thesis
        using Cons.IH [OF rest lt f] by simp
    next
      case False
      then show ?thesis
        using Cons.IH [OF rest Cons.prems(2) f] by simp
    qed
  qed
qed

lemma find_last:
  "qs \<noteq> [] \<Longrightarrow> P (last qs) \<Longrightarrow> \<forall>p \<in> set (butlast qs). \<not> P p \<Longrightarrow> find P qs = Some (last qs)"
  by (induction qs) (auto split: if_splits)

lemma scenario_exact_run:
  "get_closest_block scenario_node 75000 True
     = (Inr \<lparr>number = 75, timestamp = 75000\<rparr>, [50, 75])"
  by (simp add: get_closest_block_def scenario_node_def bisect.simps get_block_def Let_def)

lemma scenario_tie_run:
  "bisect scenario_node 50500 1 100 None (2 ^ 256 - 1) []
     = (Exhausted (Some \<lparr>number = 50, timestamp = 50000\<rparr>), [50, 75, 62, 56, 53, 51])"
  by (simp add: scenario_node_def bisect.simps get_block_def Let_def)

lemma short_node_run:
  "bisect short_node 2 1 4 None (2 ^ 256 - 1) []
     = (Exhausted (Some \<lparr>number = 2, timestamp = 1\<rparr>), [2, 3, 4])"
  by (simp add: short_node_def bisect.simps get_block_def Let_def)

lemma get_closest_block_of_bisect:
  "block_number w = Inr N \<Longrightarrow> bisect w t 1 N None (2 ^ 256 - 1) [] = (r, ps) \<Longrightarrow>
     get_closest_block w t not_before =
       (case r of
          Raised e \<Rightarrow> (Inl e, ps)
        | Returned block \<Rightarrow> (Inr block, ps)
        | Exhausted None \<Rightarrow> (Inl LookupError, ps)
        | Exhausted (Some closest_block) \<Rightarrow>
            if not_before \<and> timestamp closest_block < t then
              (get_block w (number closest_block + 1), ps @ [number closest_block + 1])
            else (Inr closest_block, ps))"
  by (simp add: get_closest_block_def)

text \<open>
  Claim C7: on a node that serves the blocks 1 to \<open>N\<close> with non-decreasing
  timestamps, if some block in \<open>[1, N]\<close> has exactly the wanted timestamp, then
  \<open>get_closest_block\<close>, with either value of \<open>not_before\<close>, returns a block with
  that timestamp; the returned block is the last block fetched, and no block fetched
  before it has the wanted timestamp: the first exact match ends the search, and nothing
  is fetched after it.
\<close>

theorem exact_match_short_circuits:
  assumes bn: "block_number w = Inr N"
    and ok: "\<forall>n. 1 \<le> n \<and> n \<le> N \<longrightarrow> block_timestamp w n = Inr (T n)"
    and mono: "\<forall>i j. 1 \<le> i \<and> i \<le> j \<and> j \<le> N \<longrightarrow> T i \<le> T j"
    and j: "1 \<le> j" "j \<le> N" "T j = t"
  shows "\<exists>qs. qs \<noteq> []
     \<and> get_closest_block w t not_before = (Inr \<lparr>number = last qs, timestamp = t\<rparr>, qs)
     \<and> T (last qs) = t \<and> (\<forall>p \<in> set (butlast qs). T p \<noteq> t) \<and> set qs \<subseteq> {1..N}"
proof -
  let ?run = "bisect w t 1 N None (2 ^ 256 - 1) []"
  from bisect_finds_exact
    [where lo = 1 and hi = N and j = j and cb = None and cd = "2 ^ 256 - 1" and ps = "[]",
      OF ok mono] j
  obtain b ps where ret: "?run = (Returned b, ps)" by auto
  from bisect_trace
    [where lo = 1 and hi = N and t = t and cb = None and cd = "2 ^ 256 - 1" and ps = "[]",
      OF ok] ret
  obtain qs where qs: "set qs \<subseteq> {1..N}" "qs \<noteq> []"
    "?run = (Returned \<lparr>number = last qs, timestamp = t\<rparr>, qs)"
    "T (last qs) = t" "\<forall>p \<in> set (butlast qs). T p \<noteq> t"
    by auto
  have "get_closest_block w t not_before = (Inr \<lparr>number = last qs, timestamp = t\<rparr>, qs)"
    using get_closest_block_of_bisect [OF bn qs(3), of not_before] by simp
  with qs show ?thesis by blast
qed

theorem exact_match_short_circuits_witness:
  "get_closest_block scenario_node 75000 True
     = (Inr \<lparr>number = 75, timestamp = 75000\<rparr>, [50, 75])
   \<and> (\<exists>qs. qs \<noteq> []
     \<and> get_closest_block scenario_node 75000 True
         = (Inr \<lparr>number = last qs, timestamp = 75000\<rparr>, qs)
     \<and> 1000 * last qs = 75000 \<and> (\<forall>p \<in> set (butlast qs). 1000 * p \<noteq> 75000)
     \<and> set qs \<subseteq> {1..100})"
proof -
  have bn: "block_number scenario_node = Inr 100"
    by (simp add: scenario_node_def)
  have ok: "\<forall>n. 1 \<le> n \<and> n \<le> 100 \<longrightarrow> block_timestamp scenario_node n = Inr (1000 * n)"
    by (simp add: scenario_node_def)
  have mono: "\<forall>i j :: int. 1 \<le> i \<and> i \<le> j \<and> j \<le> 100 \<longrightarrow> 1000 * i \<le> 1000 * j"
    by simp
  show ?thesis
    using exact_match_short_circuits [OF bn ok mono, of 75 75000 True] scenario_exact_run
    by simp
qed


lemma one_block_run:
  "bisect one_block_node 20 1 1 None (2 ^ 256 - 1) []
     = (Exhausted (Some \<lparr>number = 1, timestamp = 10\<rparr>), [1])"
  by (simp add: one_block_node_def bisect.simps get_block_def Let_def)

text \<open>
  Claim C2, amended: on a node that serves the blocks 1 to \<open>N\<close> with non-decreasing
  timestamps, each below \<open>2^64\<close>, and for a target \<open>t\<close> with
  \<open>T k \<le> t < T (k + 1)\<close>, \<open>get_closest_block\<close> with \<open>not_before = False\<close>
  returns the first block it fetched whose timestamp is as near to \<open>t\<close> as the nearer
  of \<open>T k\<close> and \<open>T (k + 1)\<close>; no block is nearer. When the timestamps are strictly
  increasing, that block is \<open>k\<close> or \<open>k + 1\<close> itself: the nearer of the two, and the
  one fetched first when they are equally near.
\<close>

theorem closest_block_first_nearest:
  assumes bn: "block_number w = Inr N"
    and ok: "\<forall>n. 1 \<le> n \<and> n \<le> N \<longrightarrow> block_timestamp w n = Inr (T n)"
    and mono: "\<forall>i j. 1 \<le> i \<and> i \<le> j \<and> j \<le> N \<longrightarrow> T i \<le> T j"
    and bound: "\<forall>n. 1 \<le> n \<and> n \<le> N \<longrightarrow> 0 \<le> T n \<and> T n < 2 ^ 64"
    and k: "1 \<le> k" "k + 1 \<le> N" "T k \<le> t" "t < T (k + 1)"
  shows "\<exists>q qs. get_closest_block w t False = (Inr \<lparr>number = q, timestamp = T q\<rparr>, qs)
     \<and> set qs \<subseteq> {1..N}
     \<and> find (\<lambda>p. \<bar>T p - t\<bar> = min (t - T k) (T (k + 1) - t)) qs = Some q
     \<and> ((\<forall>i j. 1 \<le> i \<and> i < j \<and> j \<le> N \<longrightarrow> T i < T j) \<longrightarrow>
          find (\<lambda>p. (p = k \<or> p = k + 1) \<and> \<bar>T p - t\<bar> = min (t - T k) (T (k + 1) - t)) qs
            = Some q)"
proof -
  define m where "m = min (t - T k) (T (k + 1) - t)"
  let ?run = "bisect w t 1 N None (2 ^ 256 - 1) []"
  have far: "m \<le> \<bar>T p - t\<bar>" if p: "1 \<le> p" "p \<le> N" for p
  proof (cases "p \<le> k")
    case True
    then have "T p \<le> T k" using mono [rule_format, of p k] p k by simp
    then show ?thesis using k by (simp add: m_def)
  next
    case False
    then have "T (k + 1) \<le> T p" using mono [rule_format, of "k + 1" p] p k by simp
    then show ?thesis using k by (simp add: m_def)
  qed
  have near: "p = k \<or> p = k + 1"
    if strict: "\<forall>i j. 1 \<le> i \<and> i < j \<and> j \<le> N \<longrightarrow> T i < T j"
      and p: "1 \<le> p" "p \<le> N" "\<bar>T p - t\<bar> = m" for p
  proof (rule ccontr)
    assume "\<not> (p = k \<or> p = k + 1)"
    then consider "p < k" | "k + 1 < p" by linarith
    then show False
    proof cases
      case 1
      then have "T p < T k" using strict [rule_format, of p k] p k by simp
      then show False using k p(3) by (simp add: m_def)
    next
      case 2
      then have "T (k + 1) < T p" using strict [rule_format, of "k + 1" p] p k by simp
      then show False using k p(3) by (simp add: m_def)
    qed
  qed
  have small: "m < 2 ^ 256 - 1"
  proof -
    have "T (k + 1) < 2 ^ 64" "0 \<le> T k"
      using bound [rule_format, of "k + 1"] bound [rule_format, of k] k by simp_all
    then have "m < 2 ^ 64" using k by (simp add: m_def)
    then show ?thesis by simp
  qed
  from bisect_trace
    [where lo = 1 and hi = N and t = t and cb = None and cd = "2 ^ 256 - 1" and ps = "[]",
      OF ok]
  obtain qs where sub: "set qs \<subseteq> {1..N}"
    and tr: "(?run = (Exhausted (fst (keep_closest T t (None, 2 ^ 256 - 1) qs)), qs)
              \<and> (\<forall>p \<in> set qs. T p \<noteq> t))
          \<or> (qs \<noteq> [] \<and> ?run = (Returned \<lparr>number = last qs, timestamp = t\<rparr>, qs)
              \<and> T (last qs) = t \<and> (\<forall>p \<in> set (butlast qs). T p \<noteq> t))"
    by auto
  have "\<exists>q. get_closest_block w t False = (Inr \<lparr>number = q, timestamp = T q\<rparr>, qs)
         \<and> find (\<lambda>p. \<bar>T p - t\<bar> = m) qs = Some q"
  proof (cases "T k = t")
    case True
    then have m0: "m = 0" using k by (simp add: m_def)
    from bisect_finds_exact
      [where lo = 1 and hi = N and j = k and cb = None and cd = "2 ^ 256 - 1" and ps = "[]",
        OF ok mono] k True
    obtain b ps where "?run = (Returned b, ps)" by auto
    with tr have ret: "qs \<noteq> []" "?run = (Returned \<lparr>number = last qs, timestamp = t\<rparr>, qs)"
      "T (last qs) = t" "\<forall>p \<in> set (butlast qs). T p \<noteq> t"
      by auto
    have "get_closest_block w t False
        = (Inr \<lparr>number = last qs, timestamp = T (last qs)\<rparr>, qs)"
      using get_closest_block_of_bisect [OF bn ret(2), of False] ret(3) by simp
    moreover have "find (\<lambda>p. \<bar>T p - t\<bar> = m) qs = Some (last qs)"
      using ret(1,3,4) by (intro find_last) (simp_all add: m0)
    ultimately show ?thesis by blast
  next
    case False
    then have lt: "T k < t" using k by simp
    then have mpos: "0 < m" using k by (simp add: m_def)
    have no_exact: "T p \<noteq> t" if "p \<in> set qs" for p
      using far [of p] sub that mpos by auto
    have "qs \<noteq> [] \<Longrightarrow> T (last qs) \<noteq> t"
      using no_exact [of "last qs"] by simp
    with tr have run: "?run = (Exhausted (fst (keep_closest T t (None, 2 ^ 256 - 1) qs)), qs)"
      by auto
    have "k \<in> set (snd ?run)" "k + 1 \<in> set (snd ?run)"
      using bisect_visits
        [where lo = 1 and hi = N and k = k and t = t and cb = None and cd = "2 ^ 256 - 1"
           and ps = "[]", OF ok mono k(1,2) lt k(4)] k
      by simp_all
    then have vis: "k \<in> set qs" "k + 1 \<in> set qs" unfolding run by simp_all
    have "\<bar>T k - t\<bar> = m \<or> \<bar>T (k + 1) - t\<bar> = m"
      using k by (auto simp: m_def min_def)
    with vis have "\<exists>p. p \<in> set qs \<and> \<bar>T p - t\<bar> = m" by blast
    then have "find (\<lambda>p. \<bar>T p - t\<bar> = m) qs \<noteq> None"
      by (simp add: find_None_iff)
    then obtain q where q: "find (\<lambda>p. \<bar>T p - t\<bar> = m) qs = Some q" by auto
    have all: "\<forall>p \<in> set qs. m \<le> \<bar>T p - t\<bar>"
      using far sub by auto
    have "keep_closest T t (None, 2 ^ 256 - 1) qs = (Some \<lparr>number = q, timestamp = T q\<rparr>, m)"
      by (rule keep_closest_first_nearest [OF all small q])
    then have "?run = (Exhausted (Some \<lparr>number = q, timestamp = T q\<rparr>), qs)"
      using run by simp
    from get_closest_block_of_bisect [OF bn this, of False]
    have "get_closest_block w t False = (Inr \<lparr>number = q, timestamp = T q\<rparr>, qs)"
      by simp
    with q show ?thesis by blast
  qed
  then obtain q where res: "get_closest_block w t False = (Inr \<lparr>number = q, timestamp = T q\<rparr>, qs)"
    and q: "find (\<lambda>p. \<bar>T p - t\<bar> = m) qs = Some q"
    by blast
  have "find (\<lambda>p. (p = k \<or> p = k + 1) \<and> \<bar>T p - t\<bar> = m) qs = Some q"
    if strict: "\<forall>i j. 1 \<le> i \<and> i < j \<and> j \<le> N \<longrightarrow> T i < T j"
  proof -
    have eq: "((p = k \<or> p = k + 1) \<and> \<bar>T p - t\<bar> = m) = (\<bar>T p - t\<bar> = m)"
      if "p \<in> set qs" for p
    proof (cases "\<bar>T p - t\<bar> = m")
      case True
      have "1 \<le> p" "p \<le> N" using sub that by auto
      from near [OF strict this True] True show ?thesis by simp
    next
      case False
      then show ?thesis by simp
    qed
    have "find (\<lambda>p. (p = k \<or> p = k + 1) \<and> \<bar>T p - t\<bar> = m) qs
        = find (\<lambda>p. \<bar>T p - t\<bar> = m) qs"
      by (rule find_cong [OF refl eq])
    with q show ?thesis by simp
  qed
  with res q sub show ?thesis
    unfolding m_def by blast
qed


theorem closest_block_first_nearest_witness:
  "get_closest_block scenario_node 50500 False
     = (Inr \<lparr>number = 50, timestamp = 50000\<rparr>, [50, 75, 62, 56, 53, 51])
   \<and> find (\<lambda>p. \<bar>1000 * p - 50500\<bar> = min (50500 - 1000 * 50) (1000 * (50 + 1) - 50500))
         [50, 75, 62, 56, 53, 51] = Some (50 :: int)
   \<and> find (\<lambda>p. (p = 50 \<or> p = 50 + 1)
              \<and> \<bar>1000 * p - 50500\<bar> = min (50500 - 1000 * 50) (1000 * (50 + 1) - 50500))
         [50, 75, 62, 56, 53, 51] = Some (50 :: int)"
proof -
  have bn: "block_number scenario_node = Inr 100"
    by (simp add: scenario_node_def)
  have ok: "\<forall>n. 1 \<le> n \<and> n \<le> 100 \<longrightarrow> block_timestamp scenario_node n = Inr (1000 * n)"
    by (simp add: scenario_node_def)
  have mono: "\<forall>i j :: int. 1 \<le> i \<and> i \<le> j \<and> j \<le> 100 \<longrightarrow> 1000 * i \<le> 1000 * j"
    by simp
  have bound: "\<forall>n :: int. 1 \<le> n \<and> n \<le> 100 \<longrightarrow> 0 \<le> 1000 * n \<and> 1000 * n < 2 ^ 64"
    by simp
  have strict: "\<forall>i j :: int. 1 \<le> i \<and> i < j \<and> j \<le> 100 \<longrightarrow> 1000 * i < 1000 * j"
    by simp
  have run: "get_closest_block scenario_node 50500 False
     = (Inr \<lparr>number = 50, timestamp = 50000\<rparr>, [50, 75, 62, 56, 53, 51])"
    using get_closest_block_of_bisect [OF bn scenario_tie_run, of False] by simp
  from closest_block_first_nearest [OF bn ok mono bound, of 50 50500]
  obtain q qs where
    r: "get_closest_block scenario_node 50500 False
          = (Inr \<lparr>number = q, timestamp = 1000 * q\<rparr>, qs)"
    and f: "find (\<lambda>p. \<bar>1000 * p - 50500\<bar> = min (50500 - 1000 * 50) (1000 * (50 + 1) - 50500))
              qs = Some q"
    and g: "(\<forall>i j :: int. 1 \<le> i \<and> i < j \<and> j \<le> 100 \<longrightarrow> 1000 * i < 1000 * j) \<longrightarrow>
            find (\<lambda>p. (p = 50 \<or> p = 50 + 1)
              \<and> \<bar>1000 * p - 50500\<bar> = min (50500 - 1000 * 50) (1000 * (50 + 1) - 50500))
              qs = Some q"
    by auto
  from r run have "q = 50" "qs = [50, 75, 62, 56, 53, 51]" by simp_all
  with f g strict run show ?thesis by blast
qed

text \<open>
  Claim C2, as stated, on the blocks with timestamps 1, 1, 1, 9 and the target 2: the
  timestamps are non-decreasing and \<open>T 3 \<le> 2 < T 4\<close>, so \<open>k = 3\<close>; the locator
  returns block 2, which is neither block 3 nor block 4 (it has the timestamp of block 3
  and was fetched before it).
\<close>

theorem closest_block_equal_timestamps_counterexample:
  "block_number short_node = Inr 4
   \<and> map (block_timestamp short_node) [1, 2, 3, 4] = [Inr 1, Inr 1, Inr 1, Inr 9]
   \<and> get_closest_block short_node 2 False
       = (Inr \<lparr>number = 2, timestamp = 1\<rparr>, [2, 3, 4])
   \<and> number \<lparr>number = 2, timestamp = 1\<rparr> \<noteq> (3 :: int)
   \<and> number \<lparr>number = 2, timestamp = 1\<rparr> \<noteq> (3 + 1 :: int)"
proof -
  have bn: "block_number short_node = Inr 4"
    by (simp add: short_node_def)
  have "get_closest_block short_node 2 False
       = (Inr \<lparr>number = 2, timestamp = 1\<rparr>, [2, 3, 4])"
    using get_closest_block_of_bisect [OF bn short_node_run, of False] by simp
  then show ?thesis
    by (simp add: short_node_def)
qed

text \<open>
  Claim C6, amended: when \<open>get_closest_block\<close> is called with \<open>not_before = True\<close>,
  the loop has ended with a closest block whose timestamp is strictly below the target,
  and the node has the block numbered one higher, that block is fetched and returned
  instead of the closest block. In the scenario (latest block 100, timestamps
  \<open>1000 * n\<close>, target 50500) the search keeps block 50 and the result is block 51.
\<close>

theorem not_before_returns_fetched_successor:
  assumes "block_number w = Inr N"
    and "bisect w t 1 N None (2 ^ 256 - 1) [] = (Exhausted (Some closest_block), fetched)"
    and "timestamp closest_block < t"
    and "block_timestamp w (number closest_block + 1) = Inr ts"
  shows "get_closest_block w t True =
           (Inr \<lparr>number = number closest_block + 1, timestamp = ts\<rparr>,
            fetched @ [number closest_block + 1])"
  using get_closest_block_of_bisect [OF assms(1,2), of True] assms(3,4)
  by (simp add: get_block_def)

theorem not_before_returns_fetched_successor_witness:
  "get_closest_block scenario_node 50500 True
     = (Inr \<lparr>number = 51, timestamp = 51000\<rparr>, [50, 75, 62, 56, 53, 51, 51])"
proof -
  have bn: "block_number scenario_node = Inr 100"
    by (simp add: scenario_node_def)
  have ts: "block_timestamp scenario_node (number \<lparr>number = 50, timestamp = 50000\<rparr> + 1)
      = Inr 51000"
    by (simp add: scenario_node_def)
  show ?thesis
    using not_before_returns_fetched_successor [OF bn scenario_tie_run _ ts] by simp
qed

text \<open>
  Claim C6, as stated, on the node whose only block is block 1 with timestamp 10, and the
  target 20: the closest block is block 1, its timestamp is below the target, and with
  \<open>not_before = True\<close> the call does not return a block numbered 2: it fetches
  number 2 and fails with the node's exception.
\<close>

theorem not_before_no_successor_counterexample:
  "block_number one_block_node = Inr 1
   \<and> block_timestamp one_block_node 1 = Inr 10
   \<and> bisect one_block_node 20 1 1 None (2 ^ 256 - 1) []
       = (Exhausted (Some \<lparr>number = 1, timestamp = 10\<rparr>), [1])
   \<and> get_closest_block one_block_node 20 True = (Inl (RpcError 404), [1, 2])"
proof -
  have bn: "block_number one_block_node = Inr 1"
    by (simp add: one_block_node_def)
  have "get_closest_block one_block_node 20 True = (Inl (RpcError 404), [1, 2])"
    using get_closest_block_of_bisect [OF bn one_block_run, of True]
    by (simp add: get_block_def one_block_node_def)
  then show ?thesis
    using one_block_run by (simp add: one_block_node_def)
qed

text \<open>
  Claim C10: whenever the loop has ended with a closest block whose timestamp is strictly
  below the target and \<open>not_before\<close> is true, \<open>get_closest_block\<close> fetches the
  number one above the closest block's, once, and returns whatever that fetch gives, an
  exception or a block with any timestamp. When the closest block is the latest block,
  the number fetched is \<open>N + 1\<close>, outside the searched range \<open>[1, N]\<close>. The witness
  shows both outcomes: a failing call on a one-block node, and on the four-block node a
  returned block 3 whose timestamp 1 is below the target 2.
\<close>

theorem not_before_fetch_unchecked:
  assumes "block_number w = Inr N"
    and "bisect w t 1 N None (2 ^ 256 - 1) [] = (Exhausted (Some closest_block), fetched)"
    and "timestamp closest_block < t"
  shows "get_closest_block w t True =
           (get_block w (number closest_block + 1), fetched @ [number closest_block + 1])
       \<and> (number closest_block = N \<longrightarrow>
            last (snd (get_closest_block w t True)) = N + 1
            \<and> N + 1 \<notin> {1..N})"
  using get_closest_block_of_bisect [OF assms(1,2), of True] assms(3)
  by simp

theorem not_before_fetch_unchecked_witness:
  "get_closest_block one_block_node 20 True = (Inl (RpcError 404), [1, 2])
   \<and> get_closest_block short_node 2 True = (Inr \<lparr>number = 3, timestamp = 1\<rparr>, [2, 3, 4, 3])"
proof -
  have bn: "block_number one_block_node = Inr 1" "block_number short_node = Inr 4"
    by (simp_all add: one_block_node_def short_node_def)
  have g: "get_block one_block_node 2 = Inl (RpcError 404)"
    "get_block short_node 3 = Inr \<lparr>number = 3, timestamp = 1\<rparr>"
    by (simp_all add: get_block_def one_block_node_def short_node_def)
  show ?thesis
    using not_before_fetch_unchecked [OF bn(1) one_block_run]
      not_before_fetch_unchecked [OF bn(2) short_node_run] g
    by simp
qed


text \<open>
  On any node: once a candidate is kept, the loop does not end without one; an exception
  that leaves the loop is one the node raised; and the list of fetched blocks only grows.
\<close>

lemma bisect_keeps_candidate:
  "(cb \<noteq> None \<longrightarrow> fst (bisect w t lo hi cb cd ps) \<noteq> Exhausted None)
   \<and> (\<forall>e. fst (bisect w t lo hi cb cd ps) = Raised e \<longrightarrow> (\<exists>n. block_timestamp w n = Inl e))
   \<and> (\<exists>qs. snd (bisect w t lo hi cb cd ps) = ps @ qs)"
proof (induction "nat (hi + 1 - lo)" arbitrary: lo hi cb cd ps rule: less_induct)
  case less
  show ?case
  proof (cases "lo \<le> hi")
    case False
    then show ?thesis by (simp add: bisect_exit)
  next
    case True
    define mid where "mid = (lo + hi) div 2"
    have mid: "lo \<le> mid" "mid \<le> hi" using True by (simp_all add: mid_def)
    show ?thesis
    proof (cases "block_timestamp w mid")
      case (Inl e)
      have "bisect w t lo hi cb cd ps = (Raised e, ps @ [mid])"
        unfolding mid_def by (rule bisect_raise [OF True Inl [unfolded mid_def]])
      then show ?thesis using Inl by auto
    next
      case (Inr ts)
      let ?cb = "if \<bar>ts - t\<bar> < cd then Some \<lparr>number = mid, timestamp = ts\<rparr> else cb"
      let ?cd = "if \<bar>ts - t\<bar> < cd then \<bar>ts - t\<bar> else cd"
      have keep: "cb \<noteq> None \<Longrightarrow> ?cb \<noteq> None" by simp
      consider (after) "t < ts" | (before) "ts < t" | (exact) "ts = t"
        by linarith
      then show ?thesis
      proof cases
        case after
        have step: "bisect w t lo hi cb cd ps = bisect w t lo (mid - 1) ?cb ?cd (ps @ [mid])"
          unfolding mid_def by (rule bisect_after [OF True Inr [unfolded mid_def] after])
        have "nat (mid - 1 + 1 - lo) < nat (hi + 1 - lo)"
          using mid by simp
        from less.hyps [OF this, of ?cb ?cd "ps @ [mid]"] keep show ?thesis
          unfolding step by auto
      next
        case before
        have step: "bisect w t lo hi cb cd ps = bisect w t (mid + 1) hi ?cb ?cd (ps @ [mid])"
          unfolding mid_def by (rule bisect_before [OF True Inr [unfolded mid_def] before])
        have "nat (hi + 1 - (mid + 1)) < nat (hi + 1 - lo)"
          using mid by simp
        from less.hyps [OF this, of ?cb ?cd "ps @ [mid]"] keep show ?thesis
          unfolding step by auto
      next
        case exact
        have "bisect w t lo hi cb cd ps
            = (Returned \<lparr>number = mid, timestamp = t\<rparr>, ps @ [mid])"
          unfolding mid_def
          by (rule bisect_exact [OF True Inr [unfolded mid_def exact]])
        then show ?thesis by simp
      qed
    qed
  qed
qed

text \<open>
  Claim C8: for a latest block number \<open>N \<ge> 1\<close>, block timestamps in the unsigned
  64-bit range of the data model and a target of magnitude below \<open>2^64\<close>, the loop
  never ends without a candidate, so \<open>get_closest_block\<close> does not raise its
  \<open>LookupError\<close> (the node is assumed not to raise that exception itself): the first
  iteration fetches block \<open>(1 + N) div 2\<close>, and when the fetch succeeds the difference
  is below the initial \<open>2^256 - 1\<close> and the block is kept.
\<close>

theorem lookup_error_unreachable:
  assumes bn: "block_number w = Inr N" and N: "1 \<le> N"
    and bound: "\<forall>n ts. block_timestamp w n = Inr ts \<longrightarrow> 0 \<le> ts \<and> ts < 2 ^ 64"
    and t: "\<bar>t\<bar> < 2 ^ 64"
    and node: "\<forall>n. block_timestamp w n \<noteq> Inl LookupError"
  shows "fst (bisect w t 1 N None (2 ^ 256 - 1) []) \<noteq> Exhausted None
       \<and> fst (get_closest_block w t not_before) \<noteq> Inl LookupError
       \<and> hd (snd (get_closest_block w t not_before)) = (1 + N) div 2"
proof -
  let ?run = "bisect w t 1 N None (2 ^ 256 - 1) []"
  define mid where "mid = (1 + N) div 2"
  have le: "(1 :: int) \<le> N" by (rule N)
  have first: "fst ?run \<noteq> Exhausted None \<and> (\<exists>qs. snd ?run = mid # qs)"
  proof (cases "block_timestamp w mid")
    case (Inl e)
    have "?run = (Raised e, [] @ [mid])"
      unfolding mid_def by (rule bisect_raise [OF le Inl [unfolded mid_def]])
    then show ?thesis by simp
  next
    case (Inr ts)
    have "0 \<le> ts" "ts < 2 ^ 64" using bound Inr by auto
    with t have "\<bar>ts - t\<bar> < 2 ^ 65" by simp
    then have lt: "\<bar>ts - t\<bar> < 2 ^ 256 - 1" by simp
    let ?cb = "if \<bar>ts - t\<bar> < 2 ^ 256 - 1 then Some \<lparr>number = mid, timestamp = ts\<rparr> else None"
    let ?cd = "if \<bar>ts - t\<bar> < 2 ^ 256 - 1 then \<bar>ts - t\<bar> else 2 ^ 256 - 1"
    have cb: "?cb \<noteq> None" using lt by (simp only: if_True) simp
    consider (after) "t < ts" | (before) "ts < t" | (exact) "ts = t"
      by linarith
    then show ?thesis
    proof cases
      case after
      have step: "?run = bisect w t 1 (mid - 1) ?cb ?cd ([] @ [mid])"
        unfolding mid_def by (rule bisect_after [OF le Inr [unfolded mid_def] after])
      from bisect_keeps_candidate [of ?cb w t 1 "mid - 1" ?cd "[] @ [mid]"] cb
      show ?thesis unfolding step by auto
    next
      case before
      have step: "?run = bisect w t (mid + 1) N ?cb ?cd ([] @ [mid])"
        unfolding mid_def by (rule bisect_before [OF le Inr [unfolded mid_def] before])
      from bisect_keeps_candidate [of ?cb w t "mid + 1" N ?cd "[] @ [mid]"] cb
      show ?thesis unfolding step by auto
    next
      case exact
      have "?run = (Returned \<lparr>number = mid, timestamp = t\<rparr>, [] @ [mid])"
        unfolding mid_def by (rule bisect_exact [OF le Inr [unfolded mid_def exact]])
      then show ?thesis by simp
    qed
  qed
  obtain r ps where run: "?run = (r, ps)" by (cases ?run) blast
  from first run obtain qs where r: "r \<noteq> Exhausted None" and ps: "ps = mid # qs"
    by auto
  have raised: "e \<noteq> LookupError" if "r = Raised e" for e
  proof -
    from bisect_keeps_candidate [of None w t 1 N "2 ^ 256 - 1" "[]"] run that
    obtain n where "block_timestamp w n = Inl e" by auto
    with node show ?thesis by auto
  qed
  have gb: "get_block w n \<noteq> Inl LookupError" for n
    using node [rule_format, of n] by (cases "block_timestamp w n") (auto simp: get_block_def)
  have res: "fst (get_closest_block w t not_before) \<noteq> Inl LookupError
      \<and> hd (snd (get_closest_block w t not_before)) = mid"
  proof (cases r)
    case (Raised e)
    with get_closest_block_of_bisect [OF bn run, of not_before] raised ps
    show ?thesis by simp
  next
    case (Returned b)
    with get_closest_block_of_bisect [OF bn run, of not_before] ps
    show ?thesis by simp
  next
    case (Exhausted c)
    with r obtain b where "c = Some b" by (cases c) auto
    with Exhausted get_closest_block_of_bisect [OF bn run, of not_before] ps gb
    show ?thesis by simp
  qed
  from first run res show ?thesis
    unfolding mid_def by simp
qed

theorem lookup_error_unreachable_witness:
  "fst (bisect scenario_node 50500 1 100 None (2 ^ 256 - 1) []) \<noteq> Exhausted None
   \<and> fst (get_closest_block scenario_node 50500 True) \<noteq> Inl LookupError
   \<and> hd (snd (get_closest_block scenario_node 50500 True)) = (1 + 100) div 2"
proof -
  have bn: "block_number scenario_node = Inr 100"
    by (simp add: scenario_node_def)
  have bound: "\<forall>n ts. block_timestamp scenario_node n = Inr ts \<longrightarrow> 0 \<le> ts \<and> ts < 2 ^ 64"
    by (auto simp: scenario_node_def split: if_splits)
  have node: "\<forall>n. block_timestamp scenario_node n \<noteq> Inl LookupError"
    by (simp add: scenario_node_def)
  show ?thesis
    using lookup_error_unreachable [OF bn _ bound _ node, of 50500 True] by simp
qed

end
